theory Spec2Isabelle
  imports Main
begin

section \<open>The comment tokenizer of github-action-auto-assign\<close>

text \<open>
  The tokenizer module (\<^verbatim>\<open>src/unnamed/part_000\<close>) has three layers: a string
  iterator with one slot of pushback (\<^verbatim>\<open>BackableStringIterator\<close>), a low-level
  scanner (\<^verbatim>\<open>LowLevelScanner\<close>) and the generator \<^verbatim>\<open>tokenizeHighLevel\<close>, exported
  as \<^verbatim>\<open>tokenizeString\<close>.

  A JavaScript string is iterated by code point (\<^verbatim>\<open>str[Symbol.iterator]()\<close>), so a
  string is modelled as the list of its code points, each a natural number, and a
  one-character string (\<^verbatim>\<open>char\<close>, \<^verbatim>\<open>value\<close> in the scanner) as one code point.
  Mutable objects become records that are passed in and returned updated. A failed
  \<^verbatim>\<open>assert\<close> and a method call on \<^verbatim>\<open>null\<close> are values of the type \<open>error\<close>.
\<close>

subsection \<open>Strings and characters\<close>

type_synonym jschar = nat
type_synonym jsstring = "nat list"

text \<open>An ASCII literal of the source, as the list of its code points.\<close>

definition str :: "string \<Rightarrow> jsstring" where
  "str s = map of_char s"

datatype error = AssertionError | TypeError

text \<open>The result object of an iterator: \<^verbatim>\<open>{ done: true }\<close> or \<^verbatim>\<open>{ done: false, value }\<close>.\<close>

datatype 'a IteratorResult = Done | Value 'a

subsection \<open>BackableStringIterator\<close>

text \<open>
  \<open>iter\<close> is what the underlying string iterator \<^verbatim>\<open>this._iter\<close> has not yet
  yielded; \<open>prevCache\<close> and \<open>prev\<close> are \<^verbatim>\<open>this._prevCache\<close> and \<^verbatim>\<open>this._prev\<close>,
  with \<open>None\<close> for \<^verbatim>\<open>null\<close>.
\<close>

record BackableStringIterator =
  iter :: jsstring
  prevCache :: "jschar option"
  prev :: "jschar option"

definition BackableStringIterator_new :: "jsstring \<Rightarrow> BackableStringIterator" where
  "BackableStringIterator_new s = \<lparr>iter = s, prevCache = None, prev = None\<rparr>"

text \<open>
  \<^verbatim>\<open>next()\<close>. The second test is \<^verbatim>\<open>assert.strictEqual(prev, null)\<close>, which the
  source runs after the branch for a buffered character has returned.
\<close>

definition BackableStringIterator_next ::
  "BackableStringIterator \<Rightarrow> error + (jschar IteratorResult \<times> BackableStringIterator)" where
  "BackableStringIterator_next this =
     (case prev this of
        Some p \<Rightarrow> Inr (Value p, this\<lparr>prev := None, prevCache := Some p\<rparr>)
      | None \<Rightarrow>
          if prev this \<noteq> None then Inl AssertionError
          else (case iter this of
                  [] \<Rightarrow> Inr (Done, this\<lparr>prevCache := None\<rparr>)
                | v # rest \<Rightarrow> Inr (Value v, this\<lparr>iter := rest, prevCache := Some v\<rparr>)))"

text \<open>\<^verbatim>\<open>back()\<close>: \<^verbatim>\<open>assert.notStrictEqual(this._prevCache, null)\<close>, then the swap.\<close>

definition BackableStringIterator_back ::
  "BackableStringIterator \<Rightarrow> error + BackableStringIterator" where
  "BackableStringIterator_back this =
     (if prevCache this = None then Inl AssertionError
      else Inr (this\<lparr>prev := prevCache this, prevCache := None\<rparr>))"

subsection \<open>Low-level tokens\<close>

datatype LowLevelTokenType = WhiteSpace | Eof | Identifier | Operator | Invalid

text \<open>\<open>ll_value\<close> is \<open>None\<close> for the \<^verbatim>\<open>null\<close> value of the Eof token.\<close>

record LowLevelToken =
  ll_type :: LowLevelTokenType
  ll_value :: "jsstring option"

text \<open>
  \<^verbatim>\<open>/\s/u.test(char)\<close> on a string of one code point: the code points of the
  ECMAScript classes WhiteSpace and LineTerminator (tab, line feed, vertical tab, form
  feed, carriage return, space, U+00A0, U+1680, U+2000 to U+200A, U+2028, U+2029,
  U+202F, U+205F, U+3000, U+FEFF).
\<close>

definition isWhiteSpace :: "jschar \<Rightarrow> bool" where
  "isWhiteSpace c =
     (c = 9 \<or> c = 10 \<or> c = 11 \<or> c = 12 \<or> c = 13 \<or> c = 32 \<or> c = 160 \<or> c = 5760
      \<or> (8192 \<le> c \<and> c \<le> 8202) \<or> c = 8232 \<or> c = 8233 \<or> c = 8239 \<or> c = 8287
      \<or> c = 12288 \<or> c = 65279)"

text \<open>\<^verbatim>\<open>(char === '|') || (char === '&')\<close>\<close>

definition isOperatorFragment :: "jschar \<Rightarrow> bool" where
  "isOperatorFragment c = (c = 124 \<or> c = 38)"

subsection \<open>LowLevelScanner\<close>

text \<open>\<open>sourceIter\<close> is \<open>None\<close> once \<^verbatim>\<open>_destroy()\<close> has set it to \<^verbatim>\<open>null\<close>.\<close>

record LowLevelScanner =
  sourceIter :: "BackableStringIterator option"
  hasReachedEof :: bool

definition LowLevelScanner_new :: "jsstring \<Rightarrow> LowLevelScanner" where
  "LowLevelScanner_new source =
     \<lparr>sourceIter = Some (BackableStringIterator_new source), hasReachedEof = False\<rparr>"

definition destroy :: "LowLevelScanner \<Rightarrow> LowLevelScanner" where
  "destroy this = this\<lparr>sourceIter := None, hasReachedEof := True\<rparr>"

text \<open>
  The size of what an iterator can still yield: two for each character not yet read and
  one for a character pushed back. Every loop of the scanner is defined by recursion
  on it.
\<close>

definition pending :: "BackableStringIterator \<Rightarrow> nat" where
  "pending it = 2 * length (iter it) + (case prev it of None \<Rightarrow> 0 | Some _ \<Rightarrow> 1)"

lemma next_pending:
  "BackableStringIterator_next it = Inr (Value v, it') \<Longrightarrow> pending it' < pending it"
  by (auto simp: BackableStringIterator_next_def pending_def split: option.splits list.splits)

text \<open>
  The \<^verbatim>\<open>for (;;)\<close> loop of \<^verbatim>\<open>_scanWhiteSpace\<close>, on the iterator and the buffer; it
  returns the buffer at the \<^verbatim>\<open>break\<close>.
\<close>

function scanWhiteSpace_loop ::
  "BackableStringIterator \<Rightarrow> jsstring \<Rightarrow> error + (jsstring \<times> BackableStringIterator)" where
  "scanWhiteSpace_loop it buffer =
     (case BackableStringIterator_next it of
        Inl e \<Rightarrow> Inl e
      | Inr (Done, it') \<Rightarrow> Inr (buffer, it')
      | Inr (Value v, it') \<Rightarrow>
          if \<not> isWhiteSpace v then
            (case BackableStringIterator_back it' of
               Inl e \<Rightarrow> Inl e
             | Inr it'' \<Rightarrow> Inr (buffer, it''))
          else scanWhiteSpace_loop it' (buffer @ [v]))"
  by pat_completeness auto
termination
  by (relation "measure (\<lambda>(it, buffer). pending it)") (auto simp: next_pending)

definition scanWhiteSpace ::
  "LowLevelScanner \<Rightarrow> jschar \<Rightarrow> error + (LowLevelToken \<times> LowLevelScanner)" where
  "scanWhiteSpace this c =
     (case sourceIter this of
        None \<Rightarrow> Inl TypeError
      | Some it \<Rightarrow>
          (case scanWhiteSpace_loop it [c] of
             Inl e \<Rightarrow> Inl e
           | Inr (buffer, it') \<Rightarrow>
               Inr (\<lparr>ll_type = WhiteSpace, ll_value = Some buffer\<rparr>,
                    this\<lparr>sourceIter := Some it'\<rparr>)))"

text \<open>The loop of \<^verbatim>\<open>_scanIdentifier\<close>: only a whitespace character ends the run.\<close>

function scanIdentifier_loop ::
  "BackableStringIterator \<Rightarrow> jsstring \<Rightarrow> error + (jsstring \<times> BackableStringIterator)" where
  "scanIdentifier_loop it buffer =
     (case BackableStringIterator_next it of
        Inl e \<Rightarrow> Inl e
      | Inr (Done, it') \<Rightarrow> Inr (buffer, it')
      | Inr (Value v, it') \<Rightarrow>
          if isWhiteSpace v then
            (case BackableStringIterator_back it' of
               Inl e \<Rightarrow> Inl e
             | Inr it'' \<Rightarrow> Inr (buffer, it''))
          else scanIdentifier_loop it' (buffer @ [v]))"
  by pat_completeness auto
termination
  by (relation "measure (\<lambda>(it, buffer). pending it)") (auto simp: next_pending)

definition scanIdentifier ::
  "LowLevelScanner \<Rightarrow> jschar \<Rightarrow> error + (LowLevelToken \<times> LowLevelScanner)" where
  "scanIdentifier this c =
     (case sourceIter this of
        None \<Rightarrow> Inl TypeError
      | Some it \<Rightarrow>
          (case scanIdentifier_loop it [c] of
             Inl e \<Rightarrow> Inl e
           | Inr (buffer, it') \<Rightarrow>
               Inr (\<lparr>ll_type = Identifier, ll_value = Some buffer\<rparr>,
                    this\<lparr>sourceIter := Some it'\<rparr>)))"

text \<open>
  \<^verbatim>\<open>_scanOperator\<close>: one character of lookahead. The branch for a character that is
  not an operator fragment returns without \<^verbatim>\<open>back()\<close>; the branch for the other
  fragment calls it.
\<close>

definition scanOperator ::
  "LowLevelScanner \<Rightarrow> jschar \<Rightarrow> error + (LowLevelToken \<times> LowLevelScanner)" where
  "scanOperator this c =
     (case sourceIter this of
        None \<Rightarrow> Inl TypeError
      | Some it \<Rightarrow>
          (case BackableStringIterator_next it of
             Inl e \<Rightarrow> Inl e
           | Inr (Done, it') \<Rightarrow>
               Inr (\<lparr>ll_type = Invalid, ll_value = Some [c]\<rparr>, this\<lparr>sourceIter := Some it'\<rparr>)
           | Inr (Value v, it') \<Rightarrow>
               if \<not> isOperatorFragment v then
                 Inr (\<lparr>ll_type = Invalid, ll_value = Some [c]\<rparr>, this\<lparr>sourceIter := Some it'\<rparr>)
               else if c \<noteq> v then
                 (case BackableStringIterator_back it' of
                    Inl e \<Rightarrow> Inl e
                  | Inr it'' \<Rightarrow>
                      Inr (\<lparr>ll_type = Invalid, ll_value = Some [c]\<rparr>,
                           this\<lparr>sourceIter := Some it''\<rparr>))
               else
                 Inr (\<lparr>ll_type = Operator, ll_value = Some [c, v]\<rparr>,
                      this\<lparr>sourceIter := Some it'\<rparr>)))"

text \<open>\<^verbatim>\<open>_scan\<close>\<close>

definition scan :: "LowLevelScanner \<Rightarrow> error + (LowLevelToken \<times> LowLevelScanner)" where
  "scan this =
     (case sourceIter this of
        None \<Rightarrow> Inl TypeError
      | Some it \<Rightarrow>
          (case BackableStringIterator_next it of
             Inl e \<Rightarrow> Inl e
           | Inr (Done, it') \<Rightarrow>
               Inr (\<lparr>ll_type = Eof, ll_value = None\<rparr>, this\<lparr>sourceIter := Some it'\<rparr>)
           | Inr (Value c, it') \<Rightarrow>
               if isWhiteSpace c then scanWhiteSpace (this\<lparr>sourceIter := Some it'\<rparr>) c
               else if isOperatorFragment c then scanOperator (this\<lparr>sourceIter := Some it'\<rparr>) c
               else scanIdentifier (this\<lparr>sourceIter := Some it'\<rparr>) c))"

text \<open>\<^verbatim>\<open>LowLevelScanner.next()\<close>\<close>

definition LowLevelScanner_next ::
  "LowLevelScanner \<Rightarrow> error + (LowLevelToken IteratorResult \<times> LowLevelScanner)" where
  "LowLevelScanner_next this =
     (if hasReachedEof this then Inr (Done, this)
      else (case scan this of
              Inl e \<Rightarrow> Inl e
            | Inr (token, this') \<Rightarrow>
                Inr (Value token, if ll_type token = Eof then destroy this' else this')))"

subsection \<open>Every scan makes progress\<close>

declare scanWhiteSpace_loop.simps [simp del]
declare scanIdentifier_loop.simps [simp del]

lemma next_total: "\<exists>r it'. BackableStringIterator_next it = Inr (r, it')"
  by (auto simp: BackableStringIterator_next_def split: option.splits list.splits)

lemma next_Done_pending:
  "BackableStringIterator_next it = Inr (Done, it') \<Longrightarrow> pending it' = pending it"
  by (auto simp: BackableStringIterator_next_def pending_def split: option.splits list.splits)

lemma back_after_next:
  "BackableStringIterator_next it = Inr (Value v, it') \<Longrightarrow>
   \<exists>it''. BackableStringIterator_back it' = Inr it'' \<and> pending it'' \<le> pending it"
  by (auto simp: BackableStringIterator_next_def BackableStringIterator_back_def pending_def
      split: option.splits list.splits)

lemma scanWhiteSpace_loop_ok:
  "\<exists>b it'. scanWhiteSpace_loop it buffer = Inr (b, it') \<and> pending it' \<le> pending it"
proof (induction it buffer rule: scanWhiteSpace_loop.induct)
  case (1 it buffer)
  obtain r it1 where n: "BackableStringIterator_next it = Inr (r, it1)"
    using next_total by blast
  show ?case
  proof (cases r)
    case Done
    with n show ?thesis
      by (simp add: scanWhiteSpace_loop.simps[of it] next_Done_pending)
  next
    case (Value v)
    show ?thesis
    proof (cases "isWhiteSpace v")
      case True
      with 1 n Value obtain b it' where
        "scanWhiteSpace_loop it1 (buffer @ [v]) = Inr (b, it')" "pending it' \<le> pending it1"
        by blast
      with n Value True next_pending[of it v it1] show ?thesis
        by (simp add: scanWhiteSpace_loop.simps[of it])
    next
      case False
      with n Value back_after_next[of it v it1] show ?thesis
        by (auto simp: scanWhiteSpace_loop.simps[of it])
    qed
  qed
qed

lemma scanIdentifier_loop_ok:
  "\<exists>b it'. scanIdentifier_loop it buffer = Inr (b, it') \<and> pending it' \<le> pending it"
proof (induction it buffer rule: scanIdentifier_loop.induct)
  case (1 it buffer)
  obtain r it1 where n: "BackableStringIterator_next it = Inr (r, it1)"
    using next_total by blast
  show ?case
  proof (cases r)
    case Done
    with n show ?thesis
      by (simp add: scanIdentifier_loop.simps[of it] next_Done_pending)
  next
    case (Value v)
    show ?thesis
    proof (cases "isWhiteSpace v")
      case False
      with 1 n Value obtain b it' where
        "scanIdentifier_loop it1 (buffer @ [v]) = Inr (b, it')" "pending it' \<le> pending it1"
        by blast
      with n Value False next_pending[of it v it1] show ?thesis
        by (simp add: scanIdentifier_loop.simps[of it])
    next
      case True
      with n Value back_after_next[of it v it1] show ?thesis
        by (auto simp: scanIdentifier_loop.simps[of it])
    qed
  qed
qed

lemma scanWhiteSpace_ok:
  assumes "sourceIter sc = Some it"
  shows "\<exists>b it'. scanWhiteSpace sc c =
           Inr (\<lparr>ll_type = WhiteSpace, ll_value = Some b\<rparr>, sc\<lparr>sourceIter := Some it'\<rparr>)
         \<and> pending it' \<le> pending it"
  using assms scanWhiteSpace_loop_ok[of it "[c]"] by (auto simp: scanWhiteSpace_def)

lemma scanIdentifier_ok:
  assumes "sourceIter sc = Some it"
  shows "\<exists>b it'. scanIdentifier sc c =
           Inr (\<lparr>ll_type = Identifier, ll_value = Some b\<rparr>, sc\<lparr>sourceIter := Some it'\<rparr>)
         \<and> pending it' \<le> pending it"
  using assms scanIdentifier_loop_ok[of it "[c]"] by (auto simp: scanIdentifier_def)

lemma scanOperator_ok:
  assumes "sourceIter sc = Some it"
  shows "\<exists>ty b it'. scanOperator sc c =
           Inr (\<lparr>ll_type = ty, ll_value = Some b\<rparr>, sc\<lparr>sourceIter := Some it'\<rparr>)
         \<and> (ty = Invalid \<or> ty = Operator) \<and> pending it' \<le> pending it"
proof -
  obtain r it1 where n: "BackableStringIterator_next it = Inr (r, it1)"
    using next_total by blast
  show ?thesis
  proof (cases r)
    case Done
    with n assms show ?thesis
      by (auto simp: scanOperator_def next_Done_pending intro!: exI[of _ it1])
  next
    case (Value v)
    with n assms next_pending[of it v it1] back_after_next[of it v it1] show ?thesis
      by (auto simp: scanOperator_def)
  qed
qed

text \<open>
  What one call of \<^verbatim>\<open>_scan\<close> does on a scanner that still has its iterator: it returns
  a token without raising, and unless the token is Eof the iterator has become smaller.
\<close>

lemma scan_ok:
  assumes "sourceIter sc = Some it"
  shows "\<exists>ty val it'. scan sc = Inr (\<lparr>ll_type = ty, ll_value = val\<rparr>, sc\<lparr>sourceIter := Some it'\<rparr>)
         \<and> (if ty = Eof then val = None else val \<noteq> None \<and> pending it' < pending it)"
proof -
  obtain r it1 where n: "BackableStringIterator_next it = Inr (r, it1)"
    using next_total by blast
  show ?thesis
  proof (cases r)
    case Done
    with n assms have "scan sc = Inr (\<lparr>ll_type = Eof, ll_value = None\<rparr>, sc\<lparr>sourceIter := Some it1\<rparr>)"
      by (simp add: scan_def)
    then show ?thesis
      by (intro exI[of _ Eof] exI[of _ None] exI[of _ it1]) simp
  next
    case (Value c)
    let ?sc = "sc\<lparr>sourceIter := Some it1\<rparr>"
    have s: "sourceIter ?sc = Some it1" by simp
    have lt: "pending it1 < pending it" using n Value by (simp add: next_pending)
    have "\<exists>ty b it'. scan sc = Inr (\<lparr>ll_type = ty, ll_value = Some b\<rparr>, sc\<lparr>sourceIter := Some it'\<rparr>)
            \<and> ty \<noteq> Eof \<and> pending it' \<le> pending it1"
    proof -
      consider (ws) "isWhiteSpace c" | (op) "\<not> isWhiteSpace c" "isOperatorFragment c"
        | (ident) "\<not> isWhiteSpace c" "\<not> isOperatorFragment c" by blast
      then show ?thesis
      proof cases
        case ws
        from scanWhiteSpace_ok[OF s, of c] obtain b it' where
          "scanWhiteSpace ?sc c =
             Inr (\<lparr>ll_type = WhiteSpace, ll_value = Some b\<rparr>, ?sc\<lparr>sourceIter := Some it'\<rparr>)"
          "pending it' \<le> pending it1" by blast
        with n Value assms ws show ?thesis
          by (intro exI[of _ WhiteSpace] exI[of _ b] exI[of _ it']) (simp add: scan_def)
      next
        case op
        from scanOperator_ok[OF s, of c] obtain ty b it' where
          "scanOperator ?sc c =
             Inr (\<lparr>ll_type = ty, ll_value = Some b\<rparr>, ?sc\<lparr>sourceIter := Some it'\<rparr>)"
          "ty = Invalid \<or> ty = Operator" "pending it' \<le> pending it1" by blast
        with n Value assms op show ?thesis
          by (intro exI[of _ ty] exI[of _ b] exI[of _ it']) (auto simp: scan_def)
      next
        case ident
        from scanIdentifier_ok[OF s, of c] obtain b it' where
          "scanIdentifier ?sc c =
             Inr (\<lparr>ll_type = Identifier, ll_value = Some b\<rparr>, ?sc\<lparr>sourceIter := Some it'\<rparr>)"
          "pending it' \<le> pending it1" by blast
        with n Value assms ident show ?thesis
          by (intro exI[of _ Identifier] exI[of _ b] exI[of _ it']) (simp add: scan_def)
      qed
    qed
    then obtain ty b it' where
      "scan sc = Inr (\<lparr>ll_type = ty, ll_value = Some b\<rparr>, sc\<lparr>sourceIter := Some it'\<rparr>)"
      "ty \<noteq> Eof" "pending it' \<le> pending it1" by blast
    with lt show ?thesis
      by (intro exI[of _ ty] exI[of _ "Some b"] exI[of _ it']) simp
  qed
qed

text \<open>The measure of the tokenizer's loop: what the scanner's iterator can still yield.\<close>

definition remaining :: "LowLevelScanner \<Rightarrow> nat" where
  "remaining sc = (case sourceIter sc of None \<Rightarrow> 0 | Some it \<Rightarrow> pending it)"

lemma LowLevelScanner_next_remaining:
  assumes "LowLevelScanner_next sc = Inr (Value token, sc')" "ll_type token \<noteq> Eof"
  shows "remaining sc' < remaining sc"
proof (cases "sourceIter sc")
  case None
  with assms show ?thesis
    by (auto simp: LowLevelScanner_next_def scan_def split: if_splits)
next
  case (Some it)
  from scan_ok[OF Some] assms Some show ?thesis
    by (auto simp: LowLevelScanner_next_def remaining_def split: if_splits)
qed

subsection \<open>Semantic tokens\<close>

datatype TokenType =
  Directive | AcceptPullRequest | RejectPullRequest | AssignReviewer | UserName | Unknown | TEof

text \<open>\<open>hl_value\<close> is \<open>None\<close> for \<^verbatim>\<open>null\<close>; only UserName tokens carry a string.\<close>

record HighLevelToken =
  hl_type :: TokenType
  hl_value :: "jsstring option"

text \<open>\<^verbatim>\<open>value.startsWith(p)\<close>\<close>

definition startsWith :: "jsstring \<Rightarrow> jsstring \<Rightarrow> bool" where
  "startsWith v p = (take (length p) v = p)"

text \<open>\<^verbatim>\<open>value.replace(/^@/u, '')\<close>: the regular expression is anchored and not global, so
  at most the first character is removed.\<close>

definition replace_leading_at :: "jsstring \<Rightarrow> jsstring" where
  "replace_leading_at v = (case v of [] \<Rightarrow> [] | c # rest \<Rightarrow> if c = 64 then rest else c # rest)"

text \<open>
  The generator \<^verbatim>\<open>createHighLevelToken\<close>, as the list of the tokens it yields. The
  \<^verbatim>\<open>switch\<close> compares the whole value; a \<^verbatim>\<open>null\<close> value reaches the default
  branch, where \<^verbatim>\<open>value.startsWith\<close> throws a TypeError.
\<close>

definition createHighLevelToken :: "LowLevelToken \<Rightarrow> error + HighLevelToken list" where
  "createHighLevelToken token =
     (case ll_value token of
        None \<Rightarrow> Inl TypeError
      | Some v \<Rightarrow>
          if v = str ''r?'' then
            Inr [\<lparr>hl_type = Directive, hl_value = None\<rparr>,
                 \<lparr>hl_type = AssignReviewer, hl_value = None\<rparr>]
          else if v = str ''r-'' then
            Inr [\<lparr>hl_type = Directive, hl_value = None\<rparr>,
                 \<lparr>hl_type = RejectPullRequest, hl_value = None\<rparr>]
          else if v = str ''r+'' then
            Inr [\<lparr>hl_type = Directive, hl_value = None\<rparr>,
                 \<lparr>hl_type = AcceptPullRequest, hl_value = None\<rparr>]
          else if startsWith v (str ''@'') then
            Inr [\<lparr>hl_type = UserName, hl_value = Some (replace_leading_at v)\<rparr>]
          else
            Inr [\<lparr>hl_type = Unknown, hl_value = None\<rparr>])"

text \<open>
  The \<^verbatim>\<open>for (const token of tokenStream)\<close> loop of \<^verbatim>\<open>tokenizeHighLevel\<close>, run to
  completion: the list of all tokens the generator yields, or the error that a call
  below it raised. \<^verbatim>\<open>for ... of\<close> leaves the loop when \<^verbatim>\<open>next()\<close> reports done.
\<close>

function tokenizeHighLevel_loop :: "LowLevelScanner \<Rightarrow> error + HighLevelToken list" where
  "tokenizeHighLevel_loop tokenStream =
     (case LowLevelScanner_next tokenStream of
        Inl e \<Rightarrow> Inl e
      | Inr (Done, tokenStream') \<Rightarrow> Inr []
      | Inr (Value token, tokenStream') \<Rightarrow>
          (case ll_type token of
             WhiteSpace \<Rightarrow> tokenizeHighLevel_loop tokenStream'
           | Eof \<Rightarrow> Inr []
           | Identifier \<Rightarrow>
               (case createHighLevelToken token of
                  Inl e \<Rightarrow> Inl e
                | Inr yielded \<Rightarrow>
                    (case tokenizeHighLevel_loop tokenStream' of
                       Inl e \<Rightarrow> Inl e
                     | Inr rest \<Rightarrow> Inr (yielded @ rest)))
           | Operator \<Rightarrow> tokenizeHighLevel_loop tokenStream'
           | Invalid \<Rightarrow> tokenizeHighLevel_loop tokenStream'))"
  by pat_completeness auto
termination
  by (relation "measure remaining") (auto simp: LowLevelScanner_next_remaining)

definition tokenizeHighLevel :: "jsstring \<Rightarrow> error + HighLevelToken list" where
  "tokenizeHighLevel string = tokenizeHighLevel_loop (LowLevelScanner_new string)"

declare tokenizeHighLevel_loop.simps [simp del]

section \<open>Vocabulary of the statements\<close>

text \<open>\<open>n\<close> successive calls of \<^verbatim>\<open>LowLevelScanner.next()\<close>, with the results in order.\<close>

fun LowLevelScanner_next_times ::
  "nat \<Rightarrow> LowLevelScanner \<Rightarrow> error + (LowLevelToken IteratorResult list \<times> LowLevelScanner)" where
  "LowLevelScanner_next_times 0 this = Inr ([], this)"
| "LowLevelScanner_next_times (Suc n) this =
     (case LowLevelScanner_next this of
        Inl e \<Rightarrow> Inl e
      | Inr (r, this') \<Rightarrow>
          (case LowLevelScanner_next_times n this' of
             Inl e \<Rightarrow> Inl e
           | Inr (rs, this'') \<Rightarrow> Inr (r # rs, this'')))"

text \<open>The scanner whose iterator has yielded the whole string and holds no pushback.\<close>

definition exhausted :: LowLevelScanner where
  "exhausted = \<lparr>sourceIter = Some \<lparr>iter = [], prevCache = None, prev = None\<rparr>,
                 hasReachedEof = False\<rparr>"

text \<open>A scanner that is closed or still has its iterator, as every scanner \<^verbatim>\<open>next()\<close> has
  been called on is.\<close>

definition usable :: "LowLevelScanner \<Rightarrow> bool" where
  "usable sc = (hasReachedEof sc \<or> sourceIter sc \<noteq> None)"

text \<open>The three command token types that follow a Directive.\<close>

definition isCommand :: "TokenType \<Rightarrow> bool" where
  "isCommand t = (t = AcceptPullRequest \<or> t = RejectPullRequest \<or> t = AssignReviewer)"

text \<open>
  The pairing of a sequence of token types: it is made of the pairs Directive, command
  and of single UserName and Unknown tokens, and of nothing else.
\<close>

fun pairing :: "TokenType list \<Rightarrow> bool" where
  "pairing [] = True"
| "pairing (Directive # t # ts) = (isCommand t \<and> pairing ts)"
| "pairing (t # ts) = ((t = UserName \<or> t = Unknown) \<and> pairing ts)"

text \<open>The type sequences one identifier can expand to.\<close>

definition isBlock :: "TokenType list \<Rightarrow> bool" where
  "isBlock tys =
     (tys = [Directive, AssignReviewer] \<or> tys = [Directive, RejectPullRequest]
      \<or> tys = [Directive, AcceptPullRequest] \<or> tys = [UserName] \<or> tys = [Unknown])"

section \<open>Lemmas\<close>

lemma str_simps: "str [] = []" "str (c # cs) = of_char c # str cs"
  by (simp_all add: str_def)

lemmas step_defs =
  LowLevelScanner_next_def LowLevelScanner_new_def scan_def scanOperator_def
  scanWhiteSpace_def scanIdentifier_def destroy_def
  BackableStringIterator_next_def BackableStringIterator_back_def BackableStringIterator_new_def

lemmas eval_defs =
  step_defs scanWhiteSpace_loop.simps scanIdentifier_loop.simps isWhiteSpace_def
  isOperatorFragment_def createHighLevelToken_def startsWith_def replace_leading_at_def str_simps

subsection \<open>The iterator and the closed scanner\<close>

lemma back_replays:
  assumes "BackableStringIterator_next it = Inr (Value v, it')"
  shows "\<exists>it''. BackableStringIterator_back it' = Inr it''
           \<and> BackableStringIterator_next it'' = Inr (Value v, it')"
proof -
  from assms have st: "prev it' = None" "prevCache it' = Some v"
    by (auto simp: BackableStringIterator_next_def split: option.splits list.splits)
  let ?b = "it'\<lparr>prev := Some v, prevCache := None\<rparr>"
  have "BackableStringIterator_back it' = Inr ?b"
    using st by (simp add: BackableStringIterator_back_def)
  moreover have "BackableStringIterator_next ?b = Inr (Value v, it')"
    using st by (simp add: BackableStringIterator_next_def)
  ultimately show ?thesis by (intro exI[of _ ?b]) simp
qed

lemma next_closed: "hasReachedEof sc \<Longrightarrow> LowLevelScanner_next sc = Inr (Done, sc)"
  by (simp add: LowLevelScanner_next_def)

lemma next_times_closed:
  "hasReachedEof sc \<Longrightarrow> LowLevelScanner_next_times n sc = Inr (replicate n Done, sc)"
  by (induction n) (simp_all add: next_closed)

lemma fragment_not_ws: "isOperatorFragment c \<Longrightarrow> \<not> isWhiteSpace c"
  by (auto simp: isOperatorFragment_def isWhiteSpace_def)

lemma next_Eof_closes:
  assumes "LowLevelScanner_next sc = Inr (Value tok, sc')" "ll_type tok = Eof"
  shows "hasReachedEof sc' \<and> sourceIter sc' = None"
  using assms
  by (auto simp: LowLevelScanner_next_def destroy_def split: if_splits sum.splits)

subsection \<open>The operator scan\<close>

lemma scan_operator_pair:
  assumes "sourceIter sc = Some it" "isOperatorFragment c"
    "BackableStringIterator_next it = Inr (Value c, it1)"
    "BackableStringIterator_next it1 = Inr (Value c, it2)"
  shows "scan sc = Inr (\<lparr>ll_type = Operator, ll_value = Some [c, c]\<rparr>, sc\<lparr>sourceIter := Some it2\<rparr>)"
  using assms by (simp add: scan_def scanOperator_def fragment_not_ws)

lemma scan_operator_other:
  assumes "sourceIter sc = Some it" "isOperatorFragment c"
    "BackableStringIterator_next it = Inr (Value c, it1)"
    "BackableStringIterator_next it1 = Inr (Value v, it2)" "isOperatorFragment v" "v \<noteq> c"
  shows "\<exists>it3. BackableStringIterator_back it2 = Inr it3
      \<and> scan sc = Inr (\<lparr>ll_type = Invalid, ll_value = Some [c]\<rparr>, sc\<lparr>sourceIter := Some it3\<rparr>)
      \<and> BackableStringIterator_next it3 = Inr (Value v, it2)"
proof -
  from back_replays[OF assms(4)] obtain it3 where
    "BackableStringIterator_back it2 = Inr it3" "BackableStringIterator_next it3 = Inr (Value v, it2)"
    by (elim exE conjE)
  with assms show ?thesis
    by (intro exI[of _ it3]) (simp add: scan_def scanOperator_def fragment_not_ws)
qed

lemma scan_operator_end:
  assumes "sourceIter sc = Some it" "isOperatorFragment c"
    "BackableStringIterator_next it = Inr (Value c, it1)"
    "BackableStringIterator_next it1 = Inr (Done, it2)"
  shows "scan sc = Inr (\<lparr>ll_type = Invalid, ll_value = Some [c]\<rparr>, sc\<lparr>sourceIter := Some it2\<rparr>)"
  using assms by (simp add: scan_def scanOperator_def fragment_not_ws)

subsection \<open>Runs of whitespace and single identifiers\<close>

lemma scanWhiteSpace_loop_run:
  "\<forall>c\<in>set xs. isWhiteSpace c \<Longrightarrow>
   scanWhiteSpace_loop \<lparr>iter = xs, prevCache = pc, prev = None\<rparr> b =
     Inr (b @ xs, \<lparr>iter = [], prevCache = None, prev = None\<rparr>)"
proof (induction xs arbitrary: pc b)
  case Nil
  show ?case
    by (subst scanWhiteSpace_loop.simps) (simp add: BackableStringIterator_next_def)
next
  case (Cons x xs)
  then have "scanWhiteSpace_loop \<lparr>iter = xs, prevCache = Some x, prev = None\<rparr> (b @ [x]) =
     Inr ((b @ [x]) @ xs, \<lparr>iter = [], prevCache = None, prev = None\<rparr>)"
    by simp
  with Cons.prems show ?case
    by (subst scanWhiteSpace_loop.simps) (simp add: BackableStringIterator_next_def)
qed

lemma scanIdentifier_loop_run:
  "\<forall>c\<in>set xs. \<not> isWhiteSpace c \<Longrightarrow>
   scanIdentifier_loop \<lparr>iter = xs, prevCache = pc, prev = None\<rparr> b =
     Inr (b @ xs, \<lparr>iter = [], prevCache = None, prev = None\<rparr>)"
proof (induction xs arbitrary: pc b)
  case Nil
  show ?case
    by (subst scanIdentifier_loop.simps) (simp add: BackableStringIterator_next_def)
next
  case (Cons x xs)
  then have "scanIdentifier_loop \<lparr>iter = xs, prevCache = Some x, prev = None\<rparr> (b @ [x]) =
     Inr ((b @ [x]) @ xs, \<lparr>iter = [], prevCache = None, prev = None\<rparr>)"
    by simp
  with Cons.prems show ?case
    by (subst scanIdentifier_loop.simps) (simp add: BackableStringIterator_next_def)
qed

lemma loop_exhausted: "tokenizeHighLevel_loop exhausted = Inr []"
  by (subst tokenizeHighLevel_loop.simps) (simp add: exhausted_def step_defs)

lemma next_whitespace_only:
  assumes "isWhiteSpace c" "\<forall>x\<in>set xs. isWhiteSpace x"
  shows "LowLevelScanner_next (LowLevelScanner_new (c # xs)) =
    Inr (Value \<lparr>ll_type = WhiteSpace, ll_value = Some (c # xs)\<rparr>, exhausted)"
  using assms by (simp add: step_defs exhausted_def scanWhiteSpace_loop_run)

lemma next_single_identifier:
  assumes "\<not> isWhiteSpace c" "\<not> isOperatorFragment c" "\<forall>x\<in>set xs. \<not> isWhiteSpace x"
  shows "LowLevelScanner_next (LowLevelScanner_new (c # xs)) =
    Inr (Value \<lparr>ll_type = Identifier, ll_value = Some (c # xs)\<rparr>, exhausted)"
  using assms by (simp add: step_defs exhausted_def scanIdentifier_loop_run)

lemma tokenize_empty: "tokenizeHighLevel [] = Inr []"
  unfolding tokenizeHighLevel_def
  by (subst tokenizeHighLevel_loop.simps) (simp add: step_defs)

lemma tokenize_whitespace_only:
  assumes "\<forall>x\<in>set s. isWhiteSpace x"
  shows "tokenizeHighLevel s = Inr []"
proof (cases s)
  case Nil
  then show ?thesis by (simp add: tokenize_empty)
next
  case (Cons c xs)
  with assms have "LowLevelScanner_next (LowLevelScanner_new s) =
    Inr (Value \<lparr>ll_type = WhiteSpace, ll_value = Some s\<rparr>, exhausted)"
    by (simp add: next_whitespace_only)
  then show ?thesis
    unfolding tokenizeHighLevel_def
    by (subst tokenizeHighLevel_loop.simps) (simp add: loop_exhausted)
qed

lemma createHighLevelToken_total:
  "\<exists>ys. createHighLevelToken \<lparr>ll_type = ty, ll_value = Some v\<rparr> = Inr ys"
  by (simp add: createHighLevelToken_def)

lemma tokenize_single_identifier:
  assumes "\<not> isWhiteSpace c" "\<not> isOperatorFragment c" "\<forall>x\<in>set xs. \<not> isWhiteSpace x"
  shows "tokenizeHighLevel (c # xs) =
           createHighLevelToken \<lparr>ll_type = Identifier, ll_value = Some (c # xs)\<rparr>"
proof -
  obtain ys where ys: "createHighLevelToken \<lparr>ll_type = Identifier, ll_value = Some (c # xs)\<rparr> = Inr ys"
    using createHighLevelToken_total by blast
  from next_single_identifier[OF assms] ys show ?thesis
    unfolding tokenizeHighLevel_def
    by (subst tokenizeHighLevel_loop.simps) (simp add: loop_exhausted)
qed

subsection \<open>The tokenizer never fails an assertion and always returns\<close>

lemma next_no_assertion: "LowLevelScanner_next sc \<noteq> Inl AssertionError"
proof (cases "sourceIter sc")
  case None
  then show ?thesis by (simp add: LowLevelScanner_next_def scan_def)
next
  case (Some it)
  from scan_ok[OF Some] show ?thesis
    by (auto simp: LowLevelScanner_next_def)
qed

lemma createHighLevelToken_no_assertion: "createHighLevelToken tok \<noteq> Inl AssertionError"
  by (simp add: createHighLevelToken_def split: option.splits)

lemma loop_no_assertion: "tokenizeHighLevel_loop sc \<noteq> Inl AssertionError"
proof (induction sc rule: tokenizeHighLevel_loop.induct)
  case (1 sc)
  show ?case
  proof (cases "LowLevelScanner_next sc")
    case (Inl e)
    with next_no_assertion[of sc] show ?thesis
      by (subst tokenizeHighLevel_loop.simps) auto
  next
    case (Inr p)
    obtain r sc' where p: "p = (r, sc')" by (cases p)
    show ?thesis
    proof (cases r)
      case Done
      with Inr p show ?thesis by (subst tokenizeHighLevel_loop.simps) simp
    next
      case (Value tok)
      note ih = "1.IH"[OF Inr p[symmetric] Value]
      show ?thesis
      proof (cases "ll_type tok")
        case WhiteSpace
        with Inr p Value ih(1) show ?thesis by (subst tokenizeHighLevel_loop.simps) simp
      next
        case Eof
        with Inr p Value show ?thesis by (subst tokenizeHighLevel_loop.simps) simp
      next
        case Identifier
        with Inr p Value ih(2) createHighLevelToken_no_assertion[of tok] show ?thesis
          by (subst tokenizeHighLevel_loop.simps) (auto split: sum.splits)
      next
        case Operator
        with Inr p Value ih(3) show ?thesis by (subst tokenizeHighLevel_loop.simps) simp
      next
        case Invalid
        with Inr p Value ih(4) show ?thesis by (subst tokenizeHighLevel_loop.simps) simp
      qed
    qed
  qed
qed

lemma next_usable:
  assumes "usable sc"
  shows "\<exists>r sc'. LowLevelScanner_next sc = Inr (r, sc') \<and> usable sc'
           \<and> (case r of Done \<Rightarrow> True
               | Value tok \<Rightarrow> if ll_type tok = Eof then True else ll_value tok \<noteq> None)"
proof (cases "hasReachedEof sc")
  case True
  with assms show ?thesis by (simp add: LowLevelScanner_next_def)
next
  case False
  with assms obtain it where it: "sourceIter sc = Some it" by (auto simp: usable_def)
  from scan_ok[OF it] obtain ty val it' where
    s: "scan sc = Inr (\<lparr>ll_type = ty, ll_value = val\<rparr>, sc\<lparr>sourceIter := Some it'\<rparr>)"
    and v: "if ty = Eof then val = None else val \<noteq> None \<and> pending it' < pending it"
    by blast
  show ?thesis
  proof (cases "ty = Eof")
    case True
    with s False show ?thesis by (simp add: LowLevelScanner_next_def usable_def destroy_def)
  next
    case ne: False
    with s v False show ?thesis by (simp add: LowLevelScanner_next_def usable_def)
  qed
qed

lemma createHighLevelToken_types:
  assumes "ll_value tok \<noteq> None"
  shows "\<exists>ys. createHighLevelToken tok = Inr ys \<and> isBlock (map hl_type ys)"
  using assms by (auto simp: createHighLevelToken_def isBlock_def)

lemma pairing_block: "isBlock tys \<Longrightarrow> pairing rest \<Longrightarrow> pairing (tys @ rest)"
  by (auto simp: isBlock_def isCommand_def)

lemma loop_total:
  "usable sc \<Longrightarrow> \<exists>ts. tokenizeHighLevel_loop sc = Inr ts \<and> pairing (map hl_type ts)"
proof (induction sc rule: tokenizeHighLevel_loop.induct)
  case (1 sc)
  from next_usable[OF "1.prems"] obtain r sc' where
    n: "LowLevelScanner_next sc = Inr (r, sc')" and u: "usable sc'"
    and v: "case r of Done \<Rightarrow> True
               | Value tok \<Rightarrow> if ll_type tok = Eof then True else ll_value tok \<noteq> None"
    by blast
  show ?case
  proof (cases r)
    case Done
    with n show ?thesis by (subst tokenizeHighLevel_loop.simps) simp
  next
    case (Value tok)
    note ih = "1.IH"[OF n refl Value]
    show ?thesis
    proof (cases "ll_type tok")
      case WhiteSpace
      with n Value ih(1)[OF _ u] show ?thesis by (subst tokenizeHighLevel_loop.simps) simp
    next
      case Eof
      with n Value show ?thesis by (subst tokenizeHighLevel_loop.simps) simp
    next
      case Identifier
      with v Value have "ll_value tok \<noteq> None" by simp
      from createHighLevelToken_types[OF this] obtain ys where
        ys: "createHighLevelToken tok = Inr ys" and tys: "isBlock (map hl_type ys)"
        by (elim exE conjE)
      from ih(2)[OF Identifier ys u] obtain rest where
        rest: "tokenizeHighLevel_loop sc' = Inr rest" "pairing (map hl_type rest)" by blast
      have "tokenizeHighLevel_loop sc = Inr (ys @ rest)"
        using n Value Identifier ys rest(1) by (subst tokenizeHighLevel_loop.simps) simp
      moreover have "pairing (map hl_type (ys @ rest))"
        using pairing_block[OF tys rest(2)] by simp
      ultimately show ?thesis by blast
    next
      case Operator
      with n Value ih(3)[OF _ u] show ?thesis by (subst tokenizeHighLevel_loop.simps) simp
    next
      case Invalid
      with n Value ih(4)[OF _ u] show ?thesis by (subst tokenizeHighLevel_loop.simps) simp
    qed
  qed
qed

lemma new_usable: "usable (LowLevelScanner_new s)"
  by (simp add: usable_def LowLevelScanner_new_def)

subsection \<open>The pairing, by position\<close>

lemma isCommand_simps [simp]:
  "isCommand AcceptPullRequest" "isCommand RejectPullRequest" "isCommand AssignReviewer"
  "\<not> isCommand Directive" "\<not> isCommand UserName" "\<not> isCommand Unknown" "\<not> isCommand TEof"
  by (simp_all add: isCommand_def)

lemma pairing_no_Eof: "pairing tys \<Longrightarrow> TEof \<notin> set tys"
  by (induction tys rule: pairing.induct) auto

lemma pairing_Cons:
  "pairing (t # ts) =
     (if t = Directive then (case ts of [] \<Rightarrow> False | c # rest \<Rightarrow> isCommand c \<and> pairing rest)
      else (t = UserName \<or> t = Unknown) \<and> pairing ts)"
  by (cases t; cases ts) simp_all

lemma pairing_after_Directive:
  "pairing tys \<Longrightarrow> i < length tys \<Longrightarrow> tys ! i = Directive \<Longrightarrow>
     Suc i < length tys \<and> isCommand (tys ! Suc i)"
proof (induction tys arbitrary: i rule: length_induct)
  case (1 tys)
  show ?case
  proof (cases tys)
    case Nil
    with "1.prems" show ?thesis by simp
  next
    case (Cons t ts)
    show ?thesis
    proof (cases "t = Directive")
      case True
      with "1.prems"(1) Cons obtain c rest where
        ts: "ts = c # rest" and c: "isCommand c" and p: "pairing rest"
        by (auto simp: pairing_Cons split: list.splits)
      show ?thesis
      proof (cases i)
        case 0
        with Cons ts c show ?thesis by simp
      next
        case (Suc k)
        show ?thesis
        proof (cases k)
          case 0
          with Suc Cons ts c "1.prems"(3) show ?thesis by auto
        next
          case (Suc j)
          with \<open>i = Suc k\<close> Cons ts "1.prems" have "j < length rest" "rest ! j = Directive"
            by simp_all
          moreover have "length rest < length tys" using Cons ts by simp
          ultimately have "Suc j < length rest \<and> isCommand (rest ! Suc j)"
            using "1.IH"[rule_format, of rest j] p by simp
          with Suc \<open>i = Suc k\<close> Cons ts show ?thesis by simp
        qed
      qed
    next
      case False
      with "1.prems"(1) Cons have p: "pairing ts" by (simp add: pairing_Cons)
      show ?thesis
      proof (cases i)
        case 0
        with Cons False "1.prems"(3) show ?thesis by simp
      next
        case (Suc k)
        with Cons "1.prems" have "k < length ts" "ts ! k = Directive" by simp_all
        moreover have "length ts < length tys" using Cons by simp
        ultimately have "Suc k < length ts \<and> isCommand (ts ! Suc k)"
          using "1.IH"[rule_format, of ts k] p by simp
        with Suc Cons show ?thesis by simp
      qed
    qed
  qed
qed

lemma pairing_before_command:
  "pairing tys \<Longrightarrow> i < length tys \<Longrightarrow> isCommand (tys ! i) \<Longrightarrow>
     0 < i \<and> tys ! (i - 1) = Directive"
proof (induction tys arbitrary: i rule: length_induct)
  case (1 tys)
  show ?case
  proof (cases tys)
    case Nil
    with "1.prems" show ?thesis by simp
  next
    case (Cons t ts)
    show ?thesis
    proof (cases "t = Directive")
      case True
      with "1.prems"(1) Cons obtain c rest where
        ts: "ts = c # rest" and c: "isCommand c" and p: "pairing rest"
        by (auto simp: pairing_Cons split: list.splits)
      show ?thesis
      proof (cases i)
        case 0
        with Cons True "1.prems"(3) show ?thesis by simp
      next
        case (Suc k)
        show ?thesis
        proof (cases k)
          case 0
          with Suc Cons True show ?thesis by simp
        next
          case (Suc j)
          with \<open>i = Suc k\<close> Cons ts "1.prems" have "j < length rest" "isCommand (rest ! j)"
            by simp_all
          moreover have "length rest < length tys" using Cons ts by simp
          ultimately have "0 < j \<and> rest ! (j - 1) = Directive"
            using "1.IH"[rule_format, of rest j] p by simp
          with Suc \<open>i = Suc k\<close> Cons ts show ?thesis by (cases j) simp_all
        qed
      qed
    next
      case False
      with "1.prems"(1) Cons have p: "pairing ts" and t: "\<not> isCommand t"
        by (auto simp: pairing_Cons)
      show ?thesis
      proof (cases i)
        case 0
        with Cons t "1.prems"(3) show ?thesis by simp
      next
        case (Suc k)
        with Cons "1.prems" have "k < length ts" "isCommand (ts ! k)" by simp_all
        moreover have "length ts < length tys" using Cons by simp
        ultimately have "0 < k \<and> ts ! (k - 1) = Directive"
          using "1.IH"[rule_format, of ts k] p by simp
        with Suc Cons show ?thesis by (cases k) simp_all
      qed
    qed
  qed
qed

lemma tokens_after_Directive:
  assumes "pairing (map hl_type ts)" "i < length ts" "hl_type (ts ! i) = Directive"
  shows "Suc i < length ts \<and> isCommand (hl_type (ts ! Suc i))"
proof -
  have 1: "i < length (map hl_type ts)" using assms(2) by simp
  have 2: "map hl_type ts ! i = Directive" using assms(2,3) by simp
  note r = pairing_after_Directive[OF assms(1) 1 2]
  have l: "Suc i < length ts" using r by simp
  from l r show ?thesis by simp
qed

lemma tokens_before_command:
  assumes "pairing (map hl_type ts)" "i < length ts" "isCommand (hl_type (ts ! i))"
  shows "0 < i \<and> hl_type (ts ! (i - 1)) = Directive"
proof -
  have 1: "i < length (map hl_type ts)" using assms(2) by simp
  have 2: "isCommand (map hl_type ts ! i)" using assms(2,3) by simp
  note r = pairing_before_command[OF assms(1) 1 2]
  have l: "i - 1 < length ts" using assms(2) by simp
  from l r show ?thesis by simp
qed

lemma tokens_no_Eof:
  assumes "pairing (map hl_type ts)" "i < length ts"
  shows "hl_type (ts ! i) \<noteq> TEof"
proof -
  have "hl_type (ts ! i) \<in> set (map hl_type ts)" using assms(2) by simp
  with pairing_no_Eof[OF assms(1)] show ?thesis by metis
qed

subsection \<open>Particular inputs\<close>

lemma tokenize_pipe_x: "tokenizeHighLevel (str ''|x'') = Inr []"
  unfolding tokenizeHighLevel_def
  by (subst tokenizeHighLevel_loop.simps, simp add: eval_defs)+

lemma tokenize_pipe_pipe: "tokenizeHighLevel (str ''||'') = Inr []"
  unfolding tokenizeHighLevel_def
  by (subst tokenizeHighLevel_loop.simps, simp add: eval_defs)+

lemma tokenize_amp_amp: "tokenizeHighLevel (str ''&&'') = Inr []"
  unfolding tokenizeHighLevel_def
  by (subst tokenizeHighLevel_loop.simps, simp add: eval_defs)+

lemma tokenize_pipe_amp: "tokenizeHighLevel (str ''|&'') = Inr []"
  unfolding tokenizeHighLevel_def
  by (subst tokenizeHighLevel_loop.simps, simp add: eval_defs)+

lemma tokenize_accept_bob:
  "tokenizeHighLevel (str ''r+ @bob'') =
     Inr [\<lparr>hl_type = Directive, hl_value = None\<rparr>, \<lparr>hl_type = AcceptPullRequest, hl_value = None\<rparr>,
          \<lparr>hl_type = UserName, hl_value = Some (str ''bob'')\<rparr>]"
  unfolding tokenizeHighLevel_def
  by (subst tokenizeHighLevel_loop.simps, simp add: eval_defs)+

lemma createHighLevelToken_directives:
  "createHighLevelToken \<lparr>ll_type = ty, ll_value = Some (str ''r?'')\<rparr> =
     Inr [\<lparr>hl_type = Directive, hl_value = None\<rparr>, \<lparr>hl_type = AssignReviewer, hl_value = None\<rparr>]"
  "createHighLevelToken \<lparr>ll_type = ty, ll_value = Some (str ''r-'')\<rparr> =
     Inr [\<lparr>hl_type = Directive, hl_value = None\<rparr>, \<lparr>hl_type = RejectPullRequest, hl_value = None\<rparr>]"
  "createHighLevelToken \<lparr>ll_type = ty, ll_value = Some (str ''r+'')\<rparr> =
     Inr [\<lparr>hl_type = Directive, hl_value = None\<rparr>, \<lparr>hl_type = AcceptPullRequest, hl_value = None\<rparr>]"
  by (simp_all add: createHighLevelToken_def str_simps)

lemma createHighLevelToken_Unknown:
  assumes "v \<noteq> str ''r?''" "v \<noteq> str ''r-''" "v \<noteq> str ''r+''" "\<not> startsWith v (str ''@'')"
  shows "createHighLevelToken \<lparr>ll_type = ty, ll_value = Some v\<rparr> =
           Inr [\<lparr>hl_type = Unknown, hl_value = None\<rparr>]"
  using assms by (simp add: createHighLevelToken_def)

lemma createHighLevelToken_UserName:
  "createHighLevelToken \<lparr>ll_type = ty, ll_value = Some (str ''@'' @ rest)\<rparr> =
     Inr [\<lparr>hl_type = UserName, hl_value = Some rest\<rparr>]"
  by (simp add: createHighLevelToken_def str_simps startsWith_def replace_leading_at_def)

lemma startsWith_at: "startsWith v (str ''@'') = (\<exists>rest. v = str ''@'' @ rest)"
  by (cases v) (auto simp: startsWith_def str_simps)

lemma ascii_not_ws:
  "\<not> isWhiteSpace 114" "\<not> isWhiteSpace 63" "\<not> isWhiteSpace 45" "\<not> isWhiteSpace 43"
  "\<not> isWhiteSpace 64" "\<not> isWhiteSpace 82"
  by (simp_all add: isWhiteSpace_def)

lemma tokenize_directives:
  "tokenizeHighLevel (str ''r?'') =
     Inr [\<lparr>hl_type = Directive, hl_value = None\<rparr>, \<lparr>hl_type = AssignReviewer, hl_value = None\<rparr>]"
  "tokenizeHighLevel (str ''r-'') =
     Inr [\<lparr>hl_type = Directive, hl_value = None\<rparr>, \<lparr>hl_type = RejectPullRequest, hl_value = None\<rparr>]"
  "tokenizeHighLevel (str ''r+'') =
     Inr [\<lparr>hl_type = Directive, hl_value = None\<rparr>, \<lparr>hl_type = AcceptPullRequest, hl_value = None\<rparr>]"
  "tokenizeHighLevel (str ''R+'') = Inr [\<lparr>hl_type = Unknown, hl_value = None\<rparr>]"
  by (simp_all add: str_simps tokenize_single_identifier ascii_not_ws isOperatorFragment_def
      createHighLevelToken_def startsWith_def)

lemma tokenize_r_space_plus:
  "tokenizeHighLevel (str ''r +'') =
     Inr [\<lparr>hl_type = Unknown, hl_value = None\<rparr>, \<lparr>hl_type = Unknown, hl_value = None\<rparr>]"
  unfolding tokenizeHighLevel_def
  by (subst tokenizeHighLevel_loop.simps, simp add: eval_defs)+

lemma loop_skips:
  assumes "LowLevelScanner_next sc = Inr (Value tok, sc')"
    "ll_type tok = WhiteSpace \<or> ll_type tok = Operator \<or> ll_type tok = Invalid"
  shows "tokenizeHighLevel_loop sc = tokenizeHighLevel_loop sc'"
  using assms by (subst tokenizeHighLevel_loop.simps) auto

section \<open>The claims\<close>

text \<open>
  Claim C1. For every input string \<open>s\<close>, running \<^verbatim>\<open>tokenizeHighLevel\<close> to completion
  never fails an assertion of the iterator: the outcome is not the assertion error.
\<close>

theorem C1_no_assertion: "tokenizeHighLevel s \<noteq> Inl AssertionError"
  by (simp add: tokenizeHighLevel_def loop_no_assertion)

text \<open>
  Claim C2. The identifiers \<^verbatim>\<open>r?\<close>, \<^verbatim>\<open>r-\<close> and \<^verbatim>\<open>r+\<close> expand to Directive followed by
  AssignReviewer, RejectPullRequest and AcceptPullRequest, as token values and as whole
  inputs; \<^verbatim>\<open>R+\<close> gives one Unknown token and \<^verbatim>\<open>r +\<close> two; every other identifier value that does not
  start with \<^verbatim>\<open>@\<close> gives exactly one Unknown token, and so does every input that is one
  such identifier (no whitespace, not starting with an operator fragment).
\<close>

theorem C2_identifier_mapping:
  "createHighLevelToken \<lparr>ll_type = Identifier, ll_value = Some (str ''r?'')\<rparr> =
     Inr [\<lparr>hl_type = Directive, hl_value = None\<rparr>, \<lparr>hl_type = AssignReviewer, hl_value = None\<rparr>]
   \<and> createHighLevelToken \<lparr>ll_type = Identifier, ll_value = Some (str ''r-'')\<rparr> =
     Inr [\<lparr>hl_type = Directive, hl_value = None\<rparr>, \<lparr>hl_type = RejectPullRequest, hl_value = None\<rparr>]
   \<and> createHighLevelToken \<lparr>ll_type = Identifier, ll_value = Some (str ''r+'')\<rparr> =
     Inr [\<lparr>hl_type = Directive, hl_value = None\<rparr>, \<lparr>hl_type = AcceptPullRequest, hl_value = None\<rparr>]
   \<and> tokenizeHighLevel (str ''r?'') =
     Inr [\<lparr>hl_type = Directive, hl_value = None\<rparr>, \<lparr>hl_type = AssignReviewer, hl_value = None\<rparr>]
   \<and> tokenizeHighLevel (str ''r-'') =
     Inr [\<lparr>hl_type = Directive, hl_value = None\<rparr>, \<lparr>hl_type = RejectPullRequest, hl_value = None\<rparr>]
   \<and> tokenizeHighLevel (str ''r+'') =
     Inr [\<lparr>hl_type = Directive, hl_value = None\<rparr>, \<lparr>hl_type = AcceptPullRequest, hl_value = None\<rparr>]
   \<and> tokenizeHighLevel (str ''R+'') = Inr [\<lparr>hl_type = Unknown, hl_value = None\<rparr>]
   \<and> tokenizeHighLevel (str ''r +'') =
     Inr [\<lparr>hl_type = Unknown, hl_value = None\<rparr>, \<lparr>hl_type = Unknown, hl_value = None\<rparr>]
   \<and> (v \<noteq> str ''r?'' \<and> v \<noteq> str ''r-'' \<and> v \<noteq> str ''r+'' \<and> \<not> startsWith v (str ''@'') \<longrightarrow>
        createHighLevelToken \<lparr>ll_type = Identifier, ll_value = Some v\<rparr> =
          Inr [\<lparr>hl_type = Unknown, hl_value = None\<rparr>])
   \<and> (\<not> isWhiteSpace c \<and> \<not> isOperatorFragment c \<and> (\<forall>x\<in>set xs. \<not> isWhiteSpace x)
        \<and> c # xs \<noteq> str ''r?'' \<and> c # xs \<noteq> str ''r-'' \<and> c # xs \<noteq> str ''r+''
        \<and> \<not> startsWith (c # xs) (str ''@'') \<longrightarrow>
        tokenizeHighLevel (c # xs) = Inr [\<lparr>hl_type = Unknown, hl_value = None\<rparr>])"
proof (intro conjI impI)
  assume "v \<noteq> str ''r?'' \<and> v \<noteq> str ''r-'' \<and> v \<noteq> str ''r+'' \<and> \<not> startsWith v (str ''@'')"
  then show "createHighLevelToken \<lparr>ll_type = Identifier, ll_value = Some v\<rparr> =
          Inr [\<lparr>hl_type = Unknown, hl_value = None\<rparr>]"
    by (simp add: createHighLevelToken_Unknown)
next
  assume a: "\<not> isWhiteSpace c \<and> \<not> isOperatorFragment c \<and> (\<forall>x\<in>set xs. \<not> isWhiteSpace x)
        \<and> c # xs \<noteq> str ''r?'' \<and> c # xs \<noteq> str ''r-'' \<and> c # xs \<noteq> str ''r+''
        \<and> \<not> startsWith (c # xs) (str ''@'')"
  then have "tokenizeHighLevel (c # xs) =
      createHighLevelToken \<lparr>ll_type = Identifier, ll_value = Some (c # xs)\<rparr>"
    by (intro tokenize_single_identifier) simp_all
  with a show "tokenizeHighLevel (c # xs) = Inr [\<lparr>hl_type = Unknown, hl_value = None\<rparr>]"
    by (simp add: createHighLevelToken_Unknown)
qed (simp_all add: createHighLevelToken_directives tokenize_directives tokenize_r_space_plus)

theorem C2_identifier_mapping_witness:
  "createHighLevelToken \<lparr>ll_type = Identifier, ll_value = Some (str ''R+'')\<rparr> =
     Inr [\<lparr>hl_type = Unknown, hl_value = None\<rparr>]
   \<and> tokenizeHighLevel (str ''lgtm'') = Inr [\<lparr>hl_type = Unknown, hl_value = None\<rparr>]"
proof -
  have 1: "str ''R+'' \<noteq> str ''r?'' \<and> str ''R+'' \<noteq> str ''r-'' \<and> str ''R+'' \<noteq> str ''r+''
      \<and> \<not> startsWith (str ''R+'') (str ''@'')"
    by (simp add: str_simps startsWith_def)
  have 2: "\<not> isWhiteSpace 108 \<and> \<not> isOperatorFragment 108
      \<and> (\<forall>x\<in>set [103, 116, 109]. \<not> isWhiteSpace x)
      \<and> 108 # [103, 116, 109] \<noteq> str ''r?'' \<and> 108 # [103, 116, 109] \<noteq> str ''r-''
      \<and> 108 # [103, 116, 109] \<noteq> str ''r+''
      \<and> \<not> startsWith (108 # [103, 116, 109]) (str ''@'')"
    by (simp add: str_simps startsWith_def isWhiteSpace_def isOperatorFragment_def)
  have 3: "str ''lgtm'' = 108 # [103, 116, 109]" by (simp add: str_simps)
  from C2_identifier_mapping[of "str ''R+''" 108 "[103, 116, 109]"] 1 2 3 show ?thesis
    by simp
qed

text \<open>
  Claim C3 as stated fails on the code: the input \<^verbatim>\<open>|x\<close> does not give the one token
  Unknown.
\<close>

theorem C3_counterexample:
  "tokenizeHighLevel (str ''|x'') \<noteq> Inr [\<lparr>hl_type = Unknown, hl_value = None\<rparr>]"
  by (simp add: tokenize_pipe_x)

text \<open>
  Claim C3, amended to what the code does. For the input \<^verbatim>\<open>|x\<close> the tokenizer yields no
  semantic token. The operator scan reads \<^verbatim>\<open>x\<close> as its lookahead, finds that it is not
  an operator fragment and returns the Invalid token \<^verbatim>\<open>|\<close> without pushing \<^verbatim>\<open>x\<close> back:
  the iterator is then at the end of the input, the next low-level token is Eof, and no
  Identifier is scanned.
\<close>

theorem C3_operator_swallows_next:
  "tokenizeHighLevel (str ''|x'') = Inr []
   \<and> LowLevelScanner_next (LowLevelScanner_new (str ''|x'')) =
       Inr (Value \<lparr>ll_type = Invalid, ll_value = Some (str ''|'')\<rparr>,
            \<lparr>sourceIter = Some \<lparr>iter = [], prevCache = Some 120, prev = None\<rparr>,
             hasReachedEof = False\<rparr>)
   \<and> LowLevelScanner_next
         \<lparr>sourceIter = Some \<lparr>iter = [], prevCache = Some 120, prev = None\<rparr>, hasReachedEof = False\<rparr> =
       Inr (Value \<lparr>ll_type = Eof, ll_value = None\<rparr>, \<lparr>sourceIter = None, hasReachedEof = True\<rparr>)"
  by (simp add: tokenize_pipe_x) (simp add: eval_defs)

text \<open>
  Claim C4. An identifier value that starts with \<^verbatim>\<open>@\<close> gives exactly one UserName token
  whose value is the identifier without that one leading \<^verbatim>\<open>@\<close>; the rest may be empty
  and may itself start with \<^verbatim>\<open>@\<close>. So does every input that is \<^verbatim>\<open>@\<close> followed by
  characters that are not whitespace; in particular \<^verbatim>\<open>@alice\<close> and \<^verbatim>\<open>@\<close>.
\<close>

theorem C4_user_name:
  "createHighLevelToken \<lparr>ll_type = Identifier, ll_value = Some (str ''@'' @ rest)\<rparr> =
     Inr [\<lparr>hl_type = UserName, hl_value = Some rest\<rparr>]
   \<and> (startsWith v (str ''@'') \<longrightarrow>
        (\<exists>r. v = str ''@'' @ r
           \<and> createHighLevelToken \<lparr>ll_type = Identifier, ll_value = Some v\<rparr> =
               Inr [\<lparr>hl_type = UserName, hl_value = Some r\<rparr>]))
   \<and> ((\<forall>x\<in>set rest. \<not> isWhiteSpace x) \<longrightarrow>
        tokenizeHighLevel (str ''@'' @ rest) = Inr [\<lparr>hl_type = UserName, hl_value = Some rest\<rparr>])
   \<and> tokenizeHighLevel (str ''@alice'') = Inr [\<lparr>hl_type = UserName, hl_value = Some (str ''alice'')\<rparr>]
   \<and> tokenizeHighLevel (str ''@'') = Inr [\<lparr>hl_type = UserName, hl_value = Some []\<rparr>]
   \<and> tokenizeHighLevel (str ''@@a'') = Inr [\<lparr>hl_type = UserName, hl_value = Some (str ''@a'')\<rparr>]"
proof -
  have gen: "tokenizeHighLevel (str ''@'' @ r) = Inr [\<lparr>hl_type = UserName, hl_value = Some r\<rparr>]"
    if "\<forall>x\<in>set r. \<not> isWhiteSpace x" for r
  proof -
    have "tokenizeHighLevel (64 # r) =
        createHighLevelToken \<lparr>ll_type = Identifier, ll_value = Some (64 # r)\<rparr>"
      using that by (intro tokenize_single_identifier) (simp_all add: ascii_not_ws isOperatorFragment_def)
    then show ?thesis
      using createHighLevelToken_UserName[of Identifier r] by (simp add: str_simps)
  qed
  have 1: "startsWith v (str ''@'') \<longrightarrow>
        (\<exists>r. v = str ''@'' @ r
           \<and> createHighLevelToken \<lparr>ll_type = Identifier, ll_value = Some v\<rparr> =
               Inr [\<lparr>hl_type = UserName, hl_value = Some r\<rparr>])"
    using createHighLevelToken_UserName[of Identifier] by (auto simp: startsWith_at)
  have 2: "tokenizeHighLevel (str ''@alice'') = Inr [\<lparr>hl_type = UserName, hl_value = Some (str ''alice'')\<rparr>]"
    using gen[of "str ''alice''"] by (simp add: str_simps isWhiteSpace_def)
  have 3: "tokenizeHighLevel (str ''@'') = Inr [\<lparr>hl_type = UserName, hl_value = Some []\<rparr>]"
    using gen[of "[]"] by (simp add: str_simps)
  have 4: "tokenizeHighLevel (str ''@@a'') = Inr [\<lparr>hl_type = UserName, hl_value = Some (str ''@a'')\<rparr>]"
    using gen[of "str ''@a''"] by (simp add: str_simps isWhiteSpace_def)
  from gen[of rest] 1 2 3 4 createHighLevelToken_UserName[of Identifier rest] show ?thesis
    by blast
qed

theorem C4_user_name_witness:
  "startsWith (str ''@bob'') (str ''@'')
   \<and> createHighLevelToken \<lparr>ll_type = Identifier, ll_value = Some (str ''@bob'')\<rparr> =
       Inr [\<lparr>hl_type = UserName, hl_value = Some (str ''bob'')\<rparr>]
   \<and> tokenizeHighLevel (str ''@bob'') = Inr [\<lparr>hl_type = UserName, hl_value = Some (str ''bob'')\<rparr>]"
proof -
  have 1: "startsWith (str ''@bob'') (str ''@'')" by (simp add: startsWith_def str_simps)
  have 2: "\<forall>x\<in>set (str ''bob''). \<not> isWhiteSpace x" by (simp add: str_simps isWhiteSpace_def)
  have 3: "str ''@'' @ str ''bob'' = str ''@bob''" by (simp add: str_simps)
  from C4_user_name[of "str ''bob''" "str ''@bob''"] 1 2 3 show ?thesis by auto
qed

text \<open>
  Claim C5. For every input string \<open>s\<close> the tokenizer terminates: its loops are total
  functions (each is defined by recursion on what the iterator can still yield), and
  \<^verbatim>\<open>tokenizeHighLevel\<close> returns a finite list of tokens, not an error.
\<close>

theorem C5_total: "\<exists>ts. tokenizeHighLevel s = Inr ts"
  using loop_total[OF new_usable, of s] by (auto simp: tokenizeHighLevel_def)

text \<open>
  Claim C6. An input of whitespace characters only gives no semantic token; space, tab
  and line feed are whitespace, and the input of three spaces, a line feed, a tab and
  two spaces gives the empty sequence. A WhiteSpace, Operator or Invalid token
  contributes nothing: the loop goes on from the scanner state after it.
\<close>

theorem C6_whitespace_dropped:
  "((\<forall>x\<in>set s. isWhiteSpace x) \<longrightarrow> tokenizeHighLevel s = Inr [])
   \<and> isWhiteSpace 32 \<and> isWhiteSpace 9 \<and> isWhiteSpace 10
   \<and> tokenizeHighLevel [32, 32, 32, 10, 9, 32, 32] = Inr []
   \<and> (LowLevelScanner_next sc = Inr (Value tok, sc')
        \<and> (ll_type tok = WhiteSpace \<or> ll_type tok = Operator \<or> ll_type tok = Invalid) \<longrightarrow>
        tokenizeHighLevel_loop sc = tokenizeHighLevel_loop sc')"
proof -
  have ws: "isWhiteSpace 32" "isWhiteSpace 9" "isWhiteSpace 10"
    by (simp_all add: isWhiteSpace_def)
  then have "tokenizeHighLevel [32, 32, 32, 10, 9, 32, 32] = Inr []"
    by (intro tokenize_whitespace_only) simp
  with ws tokenize_whitespace_only[of s] loop_skips[of sc tok sc'] show ?thesis
    by blast
qed

theorem C6_whitespace_dropped_witness:
  "tokenizeHighLevel [32, 9] = Inr []
   \<and> LowLevelScanner_next (LowLevelScanner_new (str ''|'')) =
       Inr (Value \<lparr>ll_type = Invalid, ll_value = Some (str ''|'')\<rparr>, exhausted)
   \<and> tokenizeHighLevel_loop (LowLevelScanner_new (str ''|'')) = tokenizeHighLevel_loop exhausted"
proof -
  have 1: "\<forall>x\<in>set [32, 9]. isWhiteSpace x" by (simp add: isWhiteSpace_def)
  have 2: "LowLevelScanner_next (LowLevelScanner_new (str ''|'')) =
       Inr (Value \<lparr>ll_type = Invalid, ll_value = Some (str ''|'')\<rparr>, exhausted)"
    by (simp add: eval_defs exhausted_def)
  from C6_whitespace_dropped[of "[32, 9]" "LowLevelScanner_new (str ''|'')"
      "\<lparr>ll_type = Invalid, ll_value = Some (str ''|'')\<rparr>" exhausted] 1 2
  show ?thesis by simp
qed

text \<open>
  Claim C7. When the scanner reads an operator fragment \<open>c\<close> and the next character is
  \<open>c\<close> again, \<^verbatim>\<open>_scan\<close> returns the Operator token \<open>c c\<close>; when the next character is
  the other operator fragment \<open>v\<close>, it is pushed back (the following \<^verbatim>\<open>next()\<close> of the
  iterator returns \<open>v\<close> again) and the token is Invalid \<open>c\<close>; when the input ends after
  \<open>c\<close>, the token is Invalid \<open>c\<close>. The inputs \<^verbatim>\<open>||\<close>, \<^verbatim>\<open>&&\<close> and \<^verbatim>\<open>|&\<close> give no
  semantic token.
\<close>

theorem C7_operator_policy:
  "(sourceIter sc = Some it \<and> isOperatorFragment c
      \<and> BackableStringIterator_next it = Inr (Value c, it1) \<longrightarrow>
      (BackableStringIterator_next it1 = Inr (Value c, it2) \<longrightarrow>
         scan sc = Inr (\<lparr>ll_type = Operator, ll_value = Some [c, c]\<rparr>, sc\<lparr>sourceIter := Some it2\<rparr>))
    \<and> (BackableStringIterator_next it1 = Inr (Value v, it2) \<and> isOperatorFragment v \<and> v \<noteq> c \<longrightarrow>
         (\<exists>it3. BackableStringIterator_back it2 = Inr it3
            \<and> scan sc = Inr (\<lparr>ll_type = Invalid, ll_value = Some [c]\<rparr>, sc\<lparr>sourceIter := Some it3\<rparr>)
            \<and> BackableStringIterator_next it3 = Inr (Value v, it2)))
    \<and> (BackableStringIterator_next it1 = Inr (Done, it2) \<longrightarrow>
         scan sc = Inr (\<lparr>ll_type = Invalid, ll_value = Some [c]\<rparr>, sc\<lparr>sourceIter := Some it2\<rparr>)))
   \<and> tokenizeHighLevel (str ''||'') = Inr []
   \<and> tokenizeHighLevel (str ''&&'') = Inr []
   \<and> tokenizeHighLevel (str ''|&'') = Inr []"
proof (intro conjI impI)
  assume "sourceIter sc = Some it \<and> isOperatorFragment c
      \<and> BackableStringIterator_next it = Inr (Value c, it1)"
    and "BackableStringIterator_next it1 = Inr (Value c, it2)"
  then show "scan sc = Inr (\<lparr>ll_type = Operator, ll_value = Some [c, c]\<rparr>, sc\<lparr>sourceIter := Some it2\<rparr>)"
    by (simp add: scan_operator_pair)
next
  assume a: "sourceIter sc = Some it \<and> isOperatorFragment c
      \<and> BackableStringIterator_next it = Inr (Value c, it1)"
    and b: "BackableStringIterator_next it1 = Inr (Value v, it2) \<and> isOperatorFragment v \<and> v \<noteq> c"
  show "\<exists>it3. BackableStringIterator_back it2 = Inr it3
            \<and> scan sc = Inr (\<lparr>ll_type = Invalid, ll_value = Some [c]\<rparr>, sc\<lparr>sourceIter := Some it3\<rparr>)
            \<and> BackableStringIterator_next it3 = Inr (Value v, it2)"
    using a b scan_operator_other[of sc it c it1 v it2] by simp
next
  assume "sourceIter sc = Some it \<and> isOperatorFragment c
      \<and> BackableStringIterator_next it = Inr (Value c, it1)"
    and "BackableStringIterator_next it1 = Inr (Done, it2)"
  then show "scan sc = Inr (\<lparr>ll_type = Invalid, ll_value = Some [c]\<rparr>, sc\<lparr>sourceIter := Some it2\<rparr>)"
    by (simp add: scan_operator_end)
qed (simp_all add: tokenize_pipe_pipe tokenize_amp_amp tokenize_pipe_amp)

theorem C7_operator_policy_witness:
  "scan (LowLevelScanner_new (str ''||'')) =
     Inr (\<lparr>ll_type = Operator, ll_value = Some (str ''||'')\<rparr>,
          \<lparr>sourceIter = Some \<lparr>iter = [], prevCache = Some 124, prev = None\<rparr>, hasReachedEof = False\<rparr>)
   \<and> scan (LowLevelScanner_new (str ''|&'')) =
     Inr (\<lparr>ll_type = Invalid, ll_value = Some (str ''|'')\<rparr>,
          \<lparr>sourceIter = Some \<lparr>iter = [], prevCache = None, prev = Some 38\<rparr>, hasReachedEof = False\<rparr>)
   \<and> BackableStringIterator_next \<lparr>iter = [], prevCache = None, prev = Some 38\<rparr> =
     Inr (Value 38, \<lparr>iter = [], prevCache = Some 38, prev = None\<rparr>)
   \<and> scan (LowLevelScanner_new (str ''&'')) =
     Inr (\<lparr>ll_type = Invalid, ll_value = Some (str ''&'')\<rparr>,
          \<lparr>sourceIter = Some \<lparr>iter = [], prevCache = None, prev = None\<rparr>, hasReachedEof = False\<rparr>)"
proof -
  let ?new = "\<lambda>s. \<lparr>iter = s, prevCache = None, prev = None\<rparr>"
  have f: "isOperatorFragment 124" "isOperatorFragment 38" "(38::nat) \<noteq> 124"
    by (simp_all add: isOperatorFragment_def)
  have n1: "BackableStringIterator_next (?new [124, 124]) =
      Inr (Value 124, \<lparr>iter = [124], prevCache = Some 124, prev = None\<rparr>)"
    and n2: "BackableStringIterator_next \<lparr>iter = [124], prevCache = Some 124, prev = None\<rparr> =
      Inr (Value 124, \<lparr>iter = [], prevCache = Some 124, prev = None\<rparr>)"
    and n3: "BackableStringIterator_next (?new [124, 38]) =
      Inr (Value 124, \<lparr>iter = [38], prevCache = Some 124, prev = None\<rparr>)"
    and n4: "BackableStringIterator_next \<lparr>iter = [38], prevCache = Some 124, prev = None\<rparr> =
      Inr (Value 38, \<lparr>iter = [], prevCache = Some 38, prev = None\<rparr>)"
    and n5: "BackableStringIterator_next (?new [38]) =
      Inr (Value 38, \<lparr>iter = [], prevCache = Some 38, prev = None\<rparr>)"
    and n6: "BackableStringIterator_next \<lparr>iter = [], prevCache = Some 38, prev = None\<rparr> =
      Inr (Done, \<lparr>iter = [], prevCache = None, prev = None\<rparr>)"
    by (simp_all add: BackableStringIterator_next_def)
  have s: "\<And>s. sourceIter (LowLevelScanner_new s) = Some (?new s)"
    by (simp add: LowLevelScanner_new_def BackableStringIterator_new_def)
  have 1: "scan (LowLevelScanner_new [124, 124]) =
     Inr (\<lparr>ll_type = Operator, ll_value = Some [124, 124]\<rparr>,
          (LowLevelScanner_new [124, 124])\<lparr>sourceIter := Some \<lparr>iter = [], prevCache = Some 124, prev = None\<rparr>\<rparr>)"
    using C7_operator_policy[of "LowLevelScanner_new [124, 124]" "?new [124, 124]" 124
        "\<lparr>iter = [124], prevCache = Some 124, prev = None\<rparr>"
        "\<lparr>iter = [], prevCache = Some 124, prev = None\<rparr>"] s f n1 n2
    by simp
  have "\<exists>it3. BackableStringIterator_back \<lparr>iter = [], prevCache = Some 38, prev = None\<rparr> = Inr it3
      \<and> scan (LowLevelScanner_new [124, 38]) =
          Inr (\<lparr>ll_type = Invalid, ll_value = Some [124]\<rparr>,
               (LowLevelScanner_new [124, 38])\<lparr>sourceIter := Some it3\<rparr>)
      \<and> BackableStringIterator_next it3 =
          Inr (Value 38, \<lparr>iter = [], prevCache = Some 38, prev = None\<rparr>)"
    using C7_operator_policy[of "LowLevelScanner_new [124, 38]" "?new [124, 38]" 124
        "\<lparr>iter = [38], prevCache = Some 124, prev = None\<rparr>"
        "\<lparr>iter = [], prevCache = Some 38, prev = None\<rparr>" 38] s f n3 n4
    by simp
  then have 2: "scan (LowLevelScanner_new [124, 38]) =
          Inr (\<lparr>ll_type = Invalid, ll_value = Some [124]\<rparr>,
               (LowLevelScanner_new [124, 38])\<lparr>sourceIter := Some \<lparr>iter = [], prevCache = None, prev = Some 38\<rparr>\<rparr>)"
    and 3: "BackableStringIterator_next \<lparr>iter = [], prevCache = None, prev = Some 38\<rparr> =
          Inr (Value 38, \<lparr>iter = [], prevCache = Some 38, prev = None\<rparr>)"
    by (auto simp: BackableStringIterator_back_def)
  have 4: "scan (LowLevelScanner_new [38]) =
     Inr (\<lparr>ll_type = Invalid, ll_value = Some [38]\<rparr>,
          (LowLevelScanner_new [38])\<lparr>sourceIter := Some \<lparr>iter = [], prevCache = None, prev = None\<rparr>\<rparr>)"
    using C7_operator_policy[of "LowLevelScanner_new [38]" "?new [38]" 38
        "\<lparr>iter = [], prevCache = Some 38, prev = None\<rparr>"
        "\<lparr>iter = [], prevCache = None, prev = None\<rparr>"] s f n5 n6
    by simp
  from 1 2 3 4 show ?thesis
    by (simp add: str_simps LowLevelScanner_new_def)
qed

text \<open>
  Claim C8. A closed scanner reports done and is left as it is, and the \<^verbatim>\<open>next()\<close> that
  returns the Eof token closes the scanner: it drops the iterator, and any number of
  further calls report done and change nothing.
\<close>

theorem C8_closed_after_Eof:
  "(hasReachedEof sc \<longrightarrow> LowLevelScanner_next sc = Inr (Done, sc))
   \<and> (LowLevelScanner_next sc = Inr (Value tok, sc') \<and> ll_type tok = Eof \<longrightarrow>
        hasReachedEof sc' \<and> sourceIter sc' = None
        \<and> (\<forall>n. LowLevelScanner_next_times n sc' = Inr (replicate n Done, sc')))"
  using next_closed next_Eof_closes next_times_closed by blast

theorem C8_closed_after_Eof_witness:
  "LowLevelScanner_next (LowLevelScanner_new [])
     = Inr (Value \<lparr>ll_type = Eof, ll_value = None\<rparr>, \<lparr>sourceIter = None, hasReachedEof = True\<rparr>)
   \<and> LowLevelScanner_next \<lparr>sourceIter = None, hasReachedEof = True\<rparr>
     = Inr (Done, \<lparr>sourceIter = None, hasReachedEof = True\<rparr>)
   \<and> LowLevelScanner_next_times 3 \<lparr>sourceIter = None, hasReachedEof = True\<rparr>
     = Inr ([Done, Done, Done], \<lparr>sourceIter = None, hasReachedEof = True\<rparr>)"
proof -
  have e: "LowLevelScanner_next (LowLevelScanner_new [])
     = Inr (Value \<lparr>ll_type = Eof, ll_value = None\<rparr>, \<lparr>sourceIter = None, hasReachedEof = True\<rparr>)"
    by (simp add: LowLevelScanner_next_def LowLevelScanner_new_def scan_def destroy_def
        BackableStringIterator_next_def BackableStringIterator_new_def)
  have t: "hasReachedEof \<lparr>sourceIter = None, hasReachedEof = True\<rparr>" by simp
  have r: "replicate 3 Done = [Done, Done, Done]" by (simp add: numeral_3_eq_3)
  from C8_closed_after_Eof[of "\<lparr>sourceIter = None, hasReachedEof = True\<rparr>"] t
  have 1: "LowLevelScanner_next \<lparr>sourceIter = None, hasReachedEof = True\<rparr>
     = Inr (Done, \<lparr>sourceIter = None, hasReachedEof = True\<rparr>)" by blast
  from C8_closed_after_Eof[of "LowLevelScanner_new []" "\<lparr>ll_type = Eof, ll_value = None\<rparr>"
      "\<lparr>sourceIter = None, hasReachedEof = True\<rparr>"] e
  have "LowLevelScanner_next_times 3 \<lparr>sourceIter = None, hasReachedEof = True\<rparr>
     = Inr (replicate 3 Done, \<lparr>sourceIter = None, hasReachedEof = True\<rparr>)" by simp
  with e 1 r show ?thesis by simp
qed

text \<open>
  Claim C9. \<^verbatim>\<open>back()\<close> fails its assertion on a new iterator (before any \<^verbatim>\<open>next()\<close>),
  right after another \<^verbatim>\<open>back()\<close>, and right after a \<^verbatim>\<open>next()\<close> that reported the end
  of the input. After a \<^verbatim>\<open>next()\<close> that returned a character \<open>c\<close>, \<^verbatim>\<open>back()\<close> succeeds
  and leaves the underlying string untouched, the following \<^verbatim>\<open>next()\<close> returns \<open>c\<close>
  again and restores the very state \<open>it1\<close> from before the \<^verbatim>\<open>back()\<close>, and in that state
  \<^verbatim>\<open>next()\<close> reads from the underlying string: the character is replayed once.
\<close>

theorem C9_back_contract:
  "BackableStringIterator_back (BackableStringIterator_new s) = Inl AssertionError
   \<and> (\<forall>it it'. BackableStringIterator_back it = Inr it' \<longrightarrow>
          BackableStringIterator_back it' = Inl AssertionError)
   \<and> (\<forall>it it'. BackableStringIterator_next it = Inr (Done, it') \<longrightarrow>
          BackableStringIterator_back it' = Inl AssertionError)
   \<and> (\<forall>it c it1. BackableStringIterator_next it = Inr (Value c, it1) \<longrightarrow>
          (\<exists>it2. BackableStringIterator_back it1 = Inr it2
             \<and> iter it2 = iter it1
             \<and> BackableStringIterator_next it2 = Inr (Value c, it1))
          \<and> BackableStringIterator_next it1 =
              (case iter it1 of
                 [] \<Rightarrow> Inr (Done, it1\<lparr>prevCache := None\<rparr>)
               | v # rest \<Rightarrow> Inr (Value v, it1\<lparr>iter := rest, prevCache := Some v\<rparr>)))"
proof (intro conjI allI impI)
  show "BackableStringIterator_back (BackableStringIterator_new s) = Inl AssertionError"
    by (simp add: BackableStringIterator_back_def BackableStringIterator_new_def)
next
  fix it it'
  assume "BackableStringIterator_back it = Inr it'"
  then show "BackableStringIterator_back it' = Inl AssertionError"
    by (auto simp: BackableStringIterator_back_def split: if_splits)
next
  fix it it'
  assume "BackableStringIterator_next it = Inr (Done, it')"
  then show "BackableStringIterator_back it' = Inl AssertionError"
    by (auto simp: BackableStringIterator_next_def BackableStringIterator_back_def
        split: option.splits list.splits)
next
  fix it c it1
  assume n: "BackableStringIterator_next it = Inr (Value c, it1)"
  then have st: "prev it1 = None" "prevCache it1 = Some c"
    by (auto simp: BackableStringIterator_next_def split: option.splits list.splits)
  let ?it2 = "it1\<lparr>prev := Some c, prevCache := None\<rparr>"
  have b: "BackableStringIterator_back it1 = Inr ?it2"
    using st by (simp add: BackableStringIterator_back_def)
  have "BackableStringIterator_next ?it2 = Inr (Value c, it1)"
    using st by (simp add: BackableStringIterator_next_def)
  with b show "\<exists>it2. BackableStringIterator_back it1 = Inr it2
             \<and> iter it2 = iter it1
             \<and> BackableStringIterator_next it2 = Inr (Value c, it1)"
    by (intro exI[of _ ?it2]) simp
  show "BackableStringIterator_next it1 =
              (case iter it1 of
                 [] \<Rightarrow> Inr (Done, it1\<lparr>prevCache := None\<rparr>)
               | v # rest \<Rightarrow> Inr (Value v, it1\<lparr>iter := rest, prevCache := Some v\<rparr>))"
    using st by (simp add: BackableStringIterator_next_def)
qed

theorem C9_back_contract_witness:
  "BackableStringIterator_back \<lparr>iter = [98], prevCache = Some 97, prev = None\<rparr>
     = Inr \<lparr>iter = [98], prevCache = None, prev = Some 97\<rparr>
   \<and> BackableStringIterator_back \<lparr>iter = [98], prevCache = None, prev = Some 97\<rparr>
     = Inl AssertionError
   \<and> BackableStringIterator_next (BackableStringIterator_new [])
     = Inr (Done, \<lparr>iter = [], prevCache = None, prev = None\<rparr>)
   \<and> BackableStringIterator_back \<lparr>iter = [], prevCache = None, prev = None\<rparr>
     = Inl AssertionError
   \<and> BackableStringIterator_next (BackableStringIterator_new (str ''ab''))
     = Inr (Value 97, \<lparr>iter = [98], prevCache = Some 97, prev = None\<rparr>)
   \<and> (\<exists>it2. BackableStringIterator_back \<lparr>iter = [98], prevCache = Some 97, prev = None\<rparr>
           = Inr it2
         \<and> BackableStringIterator_next it2
           = Inr (Value 97, \<lparr>iter = [98], prevCache = Some 97, prev = None\<rparr>))"
proof -
  have b: "BackableStringIterator_back \<lparr>iter = [98], prevCache = Some 97, prev = None\<rparr>
     = Inr \<lparr>iter = [98], prevCache = None, prev = Some 97\<rparr>"
    by (simp add: BackableStringIterator_back_def)
  have d: "BackableStringIterator_next (BackableStringIterator_new [])
     = Inr (Done, \<lparr>iter = [], prevCache = None, prev = None\<rparr>)"
    by (simp add: BackableStringIterator_next_def BackableStringIterator_new_def)
  have n: "BackableStringIterator_next (BackableStringIterator_new (str ''ab''))
     = Inr (Value 97, \<lparr>iter = [98], prevCache = Some 97, prev = None\<rparr>)"
    by (simp add: BackableStringIterator_next_def BackableStringIterator_new_def str_simps)
  from C9_back_contract[of "[]"] b d n show ?thesis by blast
qed

text \<open>
  Claim C10. For every input string the sequence of token types is paired: at every
  position, a Directive is followed at once by a command token (AcceptPullRequest,
  RejectPullRequest or AssignReviewer), a command token is preceded at once by a
  Directive, and no token has the type Eof.
\<close>

theorem C10_pairing:
  "\<exists>ts. tokenizeHighLevel s = Inr ts
     \<and> pairing (map hl_type ts)
     \<and> (\<forall>i<length ts.
           (hl_type (ts ! i) = Directive \<longrightarrow>
              Suc i < length ts \<and> isCommand (hl_type (ts ! Suc i)))
         \<and> (isCommand (hl_type (ts ! i)) \<longrightarrow> 0 < i \<and> hl_type (ts ! (i - 1)) = Directive)
         \<and> hl_type (ts ! i) \<noteq> TEof)"
proof -
  from loop_total[OF new_usable, of s] obtain ts where
    ts: "tokenizeHighLevel s = Inr ts" and p: "pairing (map hl_type ts)"
    by (auto simp: tokenizeHighLevel_def)
  have "\<forall>i<length ts.
           (hl_type (ts ! i) = Directive \<longrightarrow>
              Suc i < length ts \<and> isCommand (hl_type (ts ! Suc i)))
         \<and> (isCommand (hl_type (ts ! i)) \<longrightarrow> 0 < i \<and> hl_type (ts ! (i - 1)) = Directive)
         \<and> hl_type (ts ! i) \<noteq> TEof"
    using tokens_after_Directive[OF p] tokens_before_command[OF p] tokens_no_Eof[OF p]
    by blast
  with ts p show ?thesis by blast
qed

theorem C10_pairing_witness:
  "tokenizeHighLevel (str ''r+ @bob'') =
     Inr [\<lparr>hl_type = Directive, hl_value = None\<rparr>, \<lparr>hl_type = AcceptPullRequest, hl_value = None\<rparr>,
          \<lparr>hl_type = UserName, hl_value = Some (str ''bob'')\<rparr>]
   \<and> pairing [Directive, AcceptPullRequest, UserName]
   \<and> isCommand AcceptPullRequest"
proof -
  from C10_pairing[of "str ''r+ @bob''"] obtain ts where
    ts: "tokenizeHighLevel (str ''r+ @bob'') = Inr ts" and p: "pairing (map hl_type ts)"
    and ix: "\<forall>i<length ts.
           (hl_type (ts ! i) = Directive \<longrightarrow>
              Suc i < length ts \<and> isCommand (hl_type (ts ! Suc i)))
         \<and> (isCommand (hl_type (ts ! i)) \<longrightarrow> 0 < i \<and> hl_type (ts ! (i - 1)) = Directive)
         \<and> hl_type (ts ! i) \<noteq> TEof"
    by (elim exE conjE)
  from ts have e: "ts = [\<lparr>hl_type = Directive, hl_value = None\<rparr>,
      \<lparr>hl_type = AcceptPullRequest, hl_value = None\<rparr>,
      \<lparr>hl_type = UserName, hl_value = Some (str ''bob'')\<rparr>]"
    by (simp add: tokenize_accept_bob)
  from ix[rule_format, of 0] e have "isCommand AcceptPullRequest" by simp
  with ts p e show ?thesis by simp
qed

end
